theory Spec2Isabelle
  imports Complex_Main "HOL-Library.Char_ord" "HOL-Library.List_Lexorder" "HOL-Library.AList"
    "HOL-Library.Finite_Map"
begin

text \<open>
  A model of \<open>bluelogger.py\<close>: the fingerprint engine, the classifier, the presence tracker
  with its staleness sweep and dwell aggregation, the notification policy, and the registry
  store.  The functions keep the names they have in the source; line numbers refer to it.
  Library calls whose code is not part of the repository (SHA-1, the conversion of an epoch
  to a date, the JSON writer and parser) are parameters of the functions that call them,
  and the clock reads \<open>utc_now_iso()\<close> and \<open>now_epoch()\<close> are arguments.
\<close>

section \<open>Python values used by the logger\<close>

text \<open>
  Python strings are modelled as \<^typ>\<open>string\<close>, read as the UTF-8 bytes of the text: the
  lexicographic order of \<^theory_text>\<open>List_Lexorder\<close> over the byte order of \<^theory_text>\<open>Char_ord\<close> is
  then the order Python's \<open>sorted\<close> uses on \<open>str\<close>.  Python's unbounded \<open>int\<close> is
  \<^typ>\<open>int\<close>.  Epoch timestamps (\<open>time.time()\<close>, a \<open>float\<close>) are idealised as \<^typ>\<open>real\<close>.
  An argument or field that may be \<open>None\<close> (or missing) is an \<^typ>\<open>'a option\<close>.
\<close>

definition digit_char :: "nat \<Rightarrow> char" where
  "digit_char d = char_of (48 + d)"

fun nat_digits :: "nat \<Rightarrow> string" where
  "nat_digits n =
     (if n < 10 then [digit_char n] else nat_digits (n div 10) @ [digit_char (n mod 10)])"

declare nat_digits.simps [simp del]

text \<open>\<open>str(x)\<close> for an \<open>int\<close>: the decimal digits, with a leading minus sign.\<close>

definition str_int :: "int \<Rightarrow> string" where
  "str_int x = (if x < 0 then CHR ''-'' # nat_digits (nat (- x)) else nat_digits (nat x))"

text \<open>\<open>sep.join(parts)\<close>.\<close>

fun join :: "string \<Rightarrow> string list \<Rightarrow> string" where
  "join sep [] = []"
| "join sep [x] = x"
| "join sep (x # y # ys) = x @ sep @ join sep (y # ys)"

text \<open>\<open>xs or []\<close>: \<open>None\<close> reads as the empty list.\<close>

definition or_empty :: "'a list option \<Rightarrow> 'a list" where
  "or_empty xs = (case xs of None \<Rightarrow> [] | Some ys \<Rightarrow> ys)"

text \<open>\<open>sorted(set(xs))\<close>: the distinct elements in ascending order.\<close>

definition sorted_set :: "'a::linorder list \<Rightarrow> 'a list" where
  "sorted_set xs = sorted_list_of_set (set xs)"

text \<open>
  \<open>str.strip()\<close> and \<open>str.lower()\<close>, on the ASCII range: the whitespace characters are the
  codes 9--13 and 28--32, and the letters \<open>A\<close>--\<open>Z\<close> are mapped to \<open>a\<close>--\<open>z\<close>.  Bytes above
  127 are neither whitespace nor letters here.
\<close>

definition isspace :: "char \<Rightarrow> bool" where
  "isspace c = (let n = (of_char c :: nat) in (9 \<le> n \<and> n \<le> 13) \<or> (28 \<le> n \<and> n \<le> 32))"

definition strip :: "string \<Rightarrow> string" where
  "strip s = rev (dropWhile isspace (rev (dropWhile isspace s)))"

definition lower_char :: "char \<Rightarrow> char" where
  "lower_char c = (let n = (of_char c :: nat) in if 65 \<le> n \<and> n \<le> 90 then char_of (n + 32) else c)"

definition lower :: "string \<Rightarrow> string" where
  "lower s = map lower_char s"

definition startswith :: "string \<Rightarrow> string \<Rightarrow> bool" where
  "startswith s p = (take (length p) s = p)"

text \<open>\<open>x or ""\<close>, \<open>x or 0\<close> and \<open>x or 0.0\<close>: \<open>None\<close> (or a missing key) reads as the default.\<close>

definition or_str :: "string option \<Rightarrow> string" where
  "or_str x = (case x of None \<Rightarrow> [] | Some s \<Rightarrow> s)"

definition or_0 :: "int option \<Rightarrow> int" where
  "or_0 x = (case x of None \<Rightarrow> 0 | Some n \<Rightarrow> n)"

definition or_0r :: "real option \<Rightarrow> real" where
  "or_0r x = (case x of None \<Rightarrow> 0 | Some t \<Rightarrow> t)"

text \<open>Exceptions of the Python run time that the program meets, as values.\<close>

datatype py_error = OSError | ValueError | OverflowError | UnicodeError | RecursionError

section \<open>Fingerprint engine\<close>

record material =
  manufacturer_ids :: "int list"
  service_uuids :: "string list"
  service_data_keys :: "string list"

text \<open>
  \<open>compute_fingerprint\<close> (lines 43--58).  The first parameter stands for
  \<open>hashlib.sha1(b).hexdigest()\<close>, which is not part of the repository.
\<close>

definition compute_fingerprint ::
  "(string \<Rightarrow> string) \<Rightarrow> int list option \<Rightarrow> string list option \<Rightarrow> string list option
     \<Rightarrow> string \<times> material" where
  "compute_fingerprint sha1_hexdigest mfg_ids svc_uuids sd_keys =
     (let mfg_part = join '','' (map str_int (sorted_set (or_empty mfg_ids)));
          svc_part = join '','' (sorted_set (or_empty svc_uuids));
          sdk_part = join '','' (sorted_set (or_empty sd_keys));
          raw = ''mfg='' @ mfg_part @ ''|svc='' @ svc_part @ ''|sdk='' @ sdk_part;
          fp = take 12 (sha1_hexdigest raw);
          mat = \<lparr> manufacturer_ids = sorted_set (or_empty mfg_ids),
                  service_uuids = sorted_set (or_empty svc_uuids),
                  service_data_keys = sorted_set (or_empty sd_keys) \<rparr>
      in (fp, mat))"

section \<open>Module constants\<close>

definition MAX_LAST_EVENTS :: nat where
  "MAX_LAST_EVENTS = 25"

definition LEAVE_TIMEOUT :: real where
  "LEAVE_TIMEOUT = 120"

definition SUPPRESS_NOTIFY_NAMES :: "string set" where
  "SUPPRESS_NOTIFY_NAMES = {''your_devices_here''}"

section \<open>Classifier\<close>

text \<open>\<open>classify_tags\<close> (lines 88--99): the rule table in its order, then the primary tag.\<close>

definition classify_tags :: "int list option \<Rightarrow> string list option \<Rightarrow> string list \<times> string" where
  "classify_tags mfg_ids svc_uuids =
     (let tags0 = [];
          tags1 = (if 76 \<in> set (or_empty mfg_ids) then tags0 @ [''vendor:apple''] else tags0);
          tags2 = (if 117 \<in> set (or_empty mfg_ids) then tags1 @ [''vendor:samsung''] else tags1);
          tags3 = (if 224 \<in> set (or_empty mfg_ids) then tags2 @ [''vendor:google''] else tags2);
          tags4 = (if list_ex (\<lambda>u. startswith (lower u) ''0000feaa'') (or_empty svc_uuids)
                   then tags3 @ [''beacon:eddystone''] else tags3);
          primary = (case tags4 of [] \<Rightarrow> ''unclassified'' | t # _ \<Rightarrow> t)
      in (sorted_set tags4, primary))"

section \<open>Device records and the logger state\<close>

text \<open>One entry of \<open>last_events\<close> (lines 264--266).\<close>

record event =
  ev_time :: string
  ev_address :: "string option"
  ev_rssi :: "int option"
  ev_source :: "string option"

text \<open>
  A device record: the dictionary built at lines 222--245, each field with the type it
  has there.  A field the code reads through \<open>rec.get(...)\<close> with a \<open>None\<close> test or an
  \<open>or\<close> default is an option; \<open>present\<close> is read with \<open>rec.get("present", False)\<close>, so a
  missing key is \<open>False\<close>.  \<open>presence_by_day\<close> maps the ISO date of an enter to the seconds
  spent present.
\<close>

record device_rec =
  fp :: string
  fingerprint :: material
  tags :: "string list"
  primary_tag :: "string option"
  first_seen :: string
  last_seen :: string
  seen_count :: "int option"
  addresses :: "string list"
  names_seen :: "string list"
  best_rssi :: "int option"
  last_rssi :: "int option"
  last_events :: "event list"
  present :: bool
  last_seen_ts :: "real option"
  last_left :: "string option"
  last_enter :: "string option"
  last_enter_ts :: "real option"
  last_left_ts :: "real option"
  enter_count :: "int option"
  leave_count :: "int option"
  reenter_count :: "int option"
  presence_by_day :: "string \<rightharpoonup> real"

text \<open>The arguments of one \<open>upsert\<close> call (lines 201--210).\<close>

record sighting =
  adv_address :: "string option"
  adv_name :: "string option"
  adv_rssi :: "int option"
  adv_mfg_data :: "(int \<times> nat list) list"
  adv_service_uuids :: "string list"
  adv_service_data_keys :: "string list"
  adv_source :: "string option"

text \<open>The body of the webhook request built at lines 282--297.\<close>

record payload =
  p_event :: string
  p_fp :: string
  p_name :: "string option"
  p_address :: "string option"
  p_rssi :: "int option"
  p_best_rssi :: "int option"
  p_seen_count :: "int option"
  p_primary_tag :: "string option"
  p_tags :: "string list"
  p_last_left :: "string option"
  p_last_enter :: "string option"
  p_manufacturer_ids :: "int list"
  p_service_uuids :: "string list"
  p_service_data_keys :: "string list"

text \<open>
  The state of a \<open>BLEVisitorLogger\<close>: the device dictionary of the registry in insertion
  order, the \<open>updated_utc\<close> entry of its metadata, the dirty flag, and the payloads handed
  to \<open>post_webhook_async\<close> so far, oldest first.
\<close>

record logger =
  devices :: "(string \<times> device_rec) list"
  updated_utc :: "string option"
  dirty :: bool
  outbox :: "payload list"

section \<open>Notification policy\<close>

text \<open>\<open>_name_suppressed\<close> and \<open>_qualifies_for_notify\<close> (lines 153--162).\<close>

definition name_suppressed :: "string option \<Rightarrow> bool" where
  "name_suppressed nm = (let n = lower (strip (or_str nm)) in n \<in> SUPPRESS_NOTIFY_NAMES)"

definition qualifies_for_notify :: "device_rec \<Rightarrow> string option \<Rightarrow> bool" where
  "qualifies_for_notify rec nm =
     (if name_suppressed nm then False
      else let has_name = (strip (or_str nm) \<noteq> []);
               has_vendor = (primary_tag rec \<noteq> Some ''unclassified'')
           in has_name \<or> has_vendor)"

section \<open>Presence tracker\<close>

text \<open>
  \<open>_update_presence_time\<close> (lines 164--179).  The first parameter stands for
  \<open>datetime.fromtimestamp(ts, tz=timezone.utc).date().isoformat()\<close>, which is not part of
  the repository and raises on a timestamp outside the years the library represents.
  \<open>not enter_ts\<close> holds for \<open>None\<close> and for \<open>0.0\<close>.
\<close>

definition update_presence_time ::
  "(real \<Rightarrow> py_error + string) \<Rightarrow> device_rec \<Rightarrow> real \<Rightarrow> py_error + device_rec" where
  "update_presence_time date_iso rec leave_ts =
     (case last_enter_ts rec of
        None \<Rightarrow> Inr rec
      | Some enter_ts \<Rightarrow>
          if enter_ts = 0 then Inr rec
          else
            let elapsed = max 0 (leave_ts - enter_ts) in
            (case date_iso enter_ts of
               Inl e \<Rightarrow> Inl e
             | Inr day_key \<Rightarrow>
                 let agg = presence_by_day rec;
                     agg' = agg(day_key \<mapsto> (case agg day_key of None \<Rightarrow> 0 | Some v \<Rightarrow> v) + elapsed)
                 in Inr (rec\<lparr>presence_by_day := agg', last_left_ts := Some leave_ts\<rparr>)))"

text \<open>
  The body of the loop of \<open>mark_left_if_stale\<close> (lines 185--197) on one record; the flag
  says whether the body set \<open>self.dirty\<close>.
\<close>

definition mark_left_rec ::
  "(real \<Rightarrow> py_error + string) \<Rightarrow> string \<Rightarrow> real \<Rightarrow> device_rec \<Rightarrow> py_error + device_rec \<times> bool" where
  "mark_left_rec date_iso now_iso now_ts rec =
     (if \<not> present rec then Inr (rec, False)
      else
        let seen_ts = or_0r (last_seen_ts rec) in
        if seen_ts \<le> 0 then Inr (rec, False)
        else if now_ts - seen_ts \<ge> LEAVE_TIMEOUT then
          (let rec1 = rec\<lparr>present := False, last_left := Some now_iso,
                           leave_count := Some (or_0 (leave_count rec) + 1)\<rparr>
           in case update_presence_time date_iso rec1 now_ts of
                Inl e \<Rightarrow> Inl e
              | Inr rec2 \<Rightarrow> Inr (rec2, True))
        else Inr (rec, False))"

text \<open>
  The loop over \<open>self.registry["devices"].values()\<close>, in dictionary order.  An exception
  leaves the loop at once.
\<close>

fun mark_left_loop ::
  "(real \<Rightarrow> py_error + string) \<Rightarrow> string \<Rightarrow> real \<Rightarrow> (string \<times> device_rec) list \<Rightarrow> bool
     \<Rightarrow> py_error + (string \<times> device_rec) list \<times> bool" where
  "mark_left_loop date_iso now_iso now_ts [] d = Inr ([], d)"
| "mark_left_loop date_iso now_iso now_ts ((k, rec) # rest) d =
     (case mark_left_rec date_iso now_iso now_ts rec of
        Inl e \<Rightarrow> Inl e
      | Inr (rec', changed) \<Rightarrow>
          (case mark_left_loop date_iso now_iso now_ts rest (d \<or> changed) of
             Inl e \<Rightarrow> Inl e
           | Inr (rest', d') \<Rightarrow> Inr ((k, rec') # rest', d')))"

text \<open>
  \<open>mark_left_if_stale\<close> (lines 181--199); \<open>now_iso\<close> and \<open>now_ts\<close> are the two clock reads
  of lines 182--183.
\<close>

definition mark_left_if_stale ::
  "(real \<Rightarrow> py_error + string) \<Rightarrow> string \<Rightarrow> real \<Rightarrow> logger \<Rightarrow> py_error + logger" where
  "mark_left_if_stale date_iso now_iso now_ts lg =
     (case mark_left_loop date_iso now_iso now_ts (devices lg) (dirty lg) of
        Inl e \<Rightarrow> Inl e
      | Inr (devs, d) \<Rightarrow>
          Inr (lg\<lparr>devices := devs, dirty := d,
                  updated_utc := (if d then Some now_iso else updated_utc lg)\<rparr>))"

text \<open>The record created for a fingerprint seen for the first time (lines 222--245).\<close>

definition new_record :: "string \<Rightarrow> material \<Rightarrow> string list \<Rightarrow> string \<Rightarrow> string \<Rightarrow> device_rec" where
  "new_record k mat tgs primary now_iso =
     \<lparr> fp = k, fingerprint = mat, tags = tgs, primary_tag = Some primary,
       first_seen = now_iso, last_seen = now_iso, seen_count = Some 0,
       addresses = [], names_seen = [], best_rssi = None, last_rssi = None,
       last_events = [], present = False, last_seen_ts = Some 0,
       last_left = None, last_enter = None, last_enter_ts = None, last_left_ts = None,
       enter_count = Some 0, leave_count = Some 0, reenter_count = Some 0,
       presence_by_day = Map.empty \<rparr>"

text \<open>Lines 248--267 of \<open>upsert\<close>: the observation fields, updated on every sighting.\<close>

definition observe :: "string \<Rightarrow> real \<Rightarrow> sighting \<Rightarrow> device_rec \<Rightarrow> device_rec" where
  "observe now_iso now_ts sg rec =
     (let rec1 = rec\<lparr>last_seen := now_iso, last_seen_ts := Some now_ts,
                      seen_count := Some (or_0 (seen_count rec) + 1),
                      last_rssi := adv_rssi sg\<rparr>;
          rec2 = (case adv_rssi sg of
                    None \<Rightarrow> rec1
                  | Some v \<Rightarrow>
                      (case best_rssi rec1 of
                         None \<Rightarrow> rec1\<lparr>best_rssi := Some v\<rparr>
                       | Some best \<Rightarrow> if v > best then rec1\<lparr>best_rssi := Some v\<rparr> else rec1));
          rec3 = (case adv_address sg of
                    None \<Rightarrow> rec2
                  | Some a \<Rightarrow>
                      if a \<noteq> [] \<and> a \<notin> set (addresses rec2)
                      then rec2\<lparr>addresses := addresses rec2 @ [a]\<rparr> else rec2);
          rec4 = (case adv_name sg of
                    None \<Rightarrow> rec3
                  | Some n \<Rightarrow>
                      if n \<noteq> [] \<and> n \<notin> set (names_seen rec3)
                      then rec3\<lparr>names_seen := names_seen rec3 @ [n]\<rparr> else rec3);
          evs = last_events rec4 @
                  [\<lparr> ev_time = now_iso, ev_address = adv_address sg, ev_rssi = adv_rssi sg,
                     ev_source = adv_source sg \<rparr>]
      in rec4\<lparr>last_events := drop (length evs - MAX_LAST_EVENTS) evs\<rparr>)"

text \<open>Lines 273--279: the bookkeeping of an enter.\<close>

definition enter :: "string \<Rightarrow> real \<Rightarrow> device_rec \<Rightarrow> device_rec" where
  "enter now_iso now_ts rec =
     (let rec1 = rec\<lparr>enter_count := Some (or_0 (enter_count rec) + 1)\<rparr>;
          rec2 = (if last_left rec1 \<noteq> None
                  then rec1\<lparr>reenter_count := Some (or_0 (reenter_count rec1) + 1)\<rparr> else rec1)
      in rec2\<lparr>present := True, last_enter := Some now_iso, last_enter_ts := Some now_ts\<rparr>)"

text \<open>Lines 282--297: the payload of an enter notification.\<close>

definition enter_payload :: "string \<Rightarrow> material \<Rightarrow> sighting \<Rightarrow> device_rec \<Rightarrow> payload" where
  "enter_payload k mat sg rec =
     \<lparr> p_event = ''enter'', p_fp = k, p_name = adv_name sg, p_address = adv_address sg,
       p_rssi = adv_rssi sg, p_best_rssi = best_rssi rec, p_seen_count = seen_count rec,
       p_primary_tag = primary_tag rec, p_tags = tags rec, p_last_left = last_left rec,
       p_last_enter = last_enter rec, p_manufacturer_ids = manufacturer_ids mat,
       p_service_uuids = service_uuids mat, p_service_data_keys = service_data_keys mat \<rparr>"

text \<open>
  \<open>upsert\<close> (lines 201--298).  \<open>now_iso\<close> and \<open>now_ts\<close> are the clock reads of lines
  211--212; the record is stored back under its fingerprint, in place when the key exists
  and at the end of the dictionary when it is new.
\<close>

definition upsert :: "(string \<Rightarrow> string) \<Rightarrow> string \<Rightarrow> real \<Rightarrow> sighting \<Rightarrow> logger \<Rightarrow> logger" where
  "upsert sha1_hexdigest now_iso now_ts sg lg =
     (let mfg_ids = map fst (adv_mfg_data sg);
          (k, mat) = compute_fingerprint sha1_hexdigest (Some mfg_ids)
                       (Some (adv_service_uuids sg)) (Some (adv_service_data_keys sg));
          rec0 = (case map_of (devices lg) k of
                    None \<Rightarrow>
                      (let (tgs, primary) = classify_tags (Some mfg_ids) (Some (adv_service_uuids sg))
                       in new_record k mat tgs primary now_iso)
                  | Some r \<Rightarrow> r);
          rec1 = observe now_iso now_ts sg rec0;
          lg1 = lg\<lparr>updated_utc := Some now_iso, dirty := True\<rparr>
      in if \<not> present rec1 then
           (let rec2 = enter now_iso now_ts rec1;
                lg2 = lg1\<lparr>devices := AList.update k rec2 (devices lg1)\<rparr>
            in if qualifies_for_notify rec2 (adv_name sg)
               then lg2\<lparr>outbox := outbox lg2 @ [enter_payload k mat sg rec2]\<rparr>
               else lg2)
         else lg1\<lparr>devices := AList.update k rec1 (devices lg1)\<rparr>)"

section \<open>Scheduler\<close>

text \<open>
  What the control loop of \<open>run\<close> (lines 300--337) applies to the logger: the scanner's
  callback makes an \<open>upsert\<close>, each tick makes a sweep.  Each operation carries its clock
  reads.  An exception raised by a sweep leaves the loop.
\<close>

datatype op = Upsert string real sighting | Sweep string real

fun step ::
  "(string \<Rightarrow> string) \<Rightarrow> (real \<Rightarrow> py_error + string) \<Rightarrow> logger \<Rightarrow> op \<Rightarrow> py_error + logger" where
  "step sha1_hexdigest date_iso lg (Upsert now_iso now_ts sg) =
     Inr (upsert sha1_hexdigest now_iso now_ts sg lg)"
| "step sha1_hexdigest date_iso lg (Sweep now_iso now_ts) =
     mark_left_if_stale date_iso now_iso now_ts lg"

fun run_ops ::
  "(string \<Rightarrow> string) \<Rightarrow> (real \<Rightarrow> py_error + string) \<Rightarrow> logger \<Rightarrow> op list \<Rightarrow> py_error + logger" where
  "run_ops sha1_hexdigest date_iso lg [] = Inr lg"
| "run_ops sha1_hexdigest date_iso lg (x # xs) =
     (case step sha1_hexdigest date_iso lg x of
        Inl e \<Rightarrow> Inl e
      | Inr lg' \<Rightarrow> run_ops sha1_hexdigest date_iso lg' xs)"

section \<open>Registry store\<close>

text \<open>
  A JSON document as Python holds it.  Dictionaries are finite maps: Python compares them
  without regard to the order of their keys, and \<open>sort_keys=True\<close> writes them in one order.
\<close>

datatype json =
    JNull
  | JBool bool
  | JInt int
  | JFloat real
  | JStr string
  | JList "json list"
  | JDict "(string, json) fmap"









section \<open>Notions used in the statements\<close>

text \<open>The fingerprint of a sighting, as line 215 computes it.\<close>

definition sighting_fp :: "(string \<Rightarrow> string) \<Rightarrow> sighting \<Rightarrow> string" where
  "sighting_fp sha1_hexdigest sg =
     fst (compute_fingerprint sha1_hexdigest (Some (map fst (adv_mfg_data sg)))
            (Some (adv_service_uuids sg)) (Some (adv_service_data_keys sg)))"

text \<open>The record that \<open>upsert\<close> works on: the one found at line 218 or built at line 222.\<close>

definition lookup_or_new :: "(string \<Rightarrow> string) \<Rightarrow> string \<Rightarrow> sighting \<Rightarrow> logger \<Rightarrow> device_rec" where
  "lookup_or_new sha1_hexdigest now_iso sg lg =
     (let mfg_ids = map fst (adv_mfg_data sg);
          (k, mat) = compute_fingerprint sha1_hexdigest (Some mfg_ids)
                       (Some (adv_service_uuids sg)) (Some (adv_service_data_keys sg))
      in case map_of (devices lg) k of
           None \<Rightarrow>
             (let (tgs, primary) = classify_tags (Some mfg_ids) (Some (adv_service_uuids sg))
              in new_record k mat tgs primary now_iso)
         | Some r \<Rightarrow> r)"

text \<open>The record that \<open>upsert\<close> stores under the fingerprint of the sighting.\<close>

definition upsert_rec :: "(string \<Rightarrow> string) \<Rightarrow> string \<Rightarrow> real \<Rightarrow> sighting \<Rightarrow> logger \<Rightarrow> device_rec" where
  "upsert_rec sha1_hexdigest now_iso now_ts sg lg =
     (let mfg_ids = map fst (adv_mfg_data sg);
          (k, mat) = compute_fingerprint sha1_hexdigest (Some mfg_ids)
                       (Some (adv_service_uuids sg)) (Some (adv_service_data_keys sg));
          rec0 = (case map_of (devices lg) k of
                    None \<Rightarrow>
                      (let (tgs, primary) = classify_tags (Some mfg_ids) (Some (adv_service_uuids sg))
                       in new_record k mat tgs primary now_iso)
                  | Some r \<Rightarrow> r);
          rec1 = observe now_iso now_ts sg rec0
      in if \<not> present rec1 then enter now_iso now_ts rec1 else rec1)"

text \<open>
  The values that lines 253--267 leave in \<open>best_rssi\<close>, \<open>addresses\<close>, \<open>names_seen\<close> and
  \<open>last_events\<close>, each as a function of the sighting and the record before.
\<close>

definition observed_best :: "sighting \<Rightarrow> device_rec \<Rightarrow> int option" where
  "observed_best sg r =
     (case adv_rssi sg of
        None \<Rightarrow> best_rssi r
      | Some v \<Rightarrow> (case best_rssi r of None \<Rightarrow> Some v | Some b \<Rightarrow> Some (max b v)))"

definition observed_addresses :: "sighting \<Rightarrow> device_rec \<Rightarrow> string list" where
  "observed_addresses sg r =
     (case adv_address sg of
        None \<Rightarrow> addresses r
      | Some a \<Rightarrow> if a \<noteq> [] \<and> a \<notin> set (addresses r) then addresses r @ [a] else addresses r)"

definition observed_names :: "sighting \<Rightarrow> device_rec \<Rightarrow> string list" where
  "observed_names sg r =
     (case adv_name sg of
        None \<Rightarrow> names_seen r
      | Some n \<Rightarrow> if n \<noteq> [] \<and> n \<notin> set (names_seen r) then names_seen r @ [n] else names_seen r)"

definition observed_events :: "string \<Rightarrow> sighting \<Rightarrow> device_rec \<Rightarrow> event list" where
  "observed_events now_iso sg r =
     (let evs = last_events r @
                  [\<lparr> ev_time = now_iso, ev_address = adv_address sg, ev_rssi = adv_rssi sg,
                     ev_source = adv_source sg \<rparr>]
      in drop (length evs - MAX_LAST_EVENTS) evs)"

text \<open>Whether an operation of the control loop is an upsert of the fingerprint \<open>k\<close>.\<close>

definition upsert_of :: "(string \<Rightarrow> string) \<Rightarrow> string \<Rightarrow> op \<Rightarrow> bool" where
  "upsert_of sha1_hexdigest k x =
     (case x of
        Upsert now_iso now_ts sg \<Rightarrow> sighting_fp sha1_hexdigest sg = k
      | Sweep now_iso now_ts \<Rightarrow> False)"

text \<open>A run of the control loop that only sweeps, once for each pair of clock reads.\<close>

definition sweeps_at :: "(string \<times> real) list \<Rightarrow> op list" where
  "sweeps_at ticks = map (\<lambda>(now_iso, now_ts). Sweep now_iso now_ts) ticks"

section \<open>Values for the examples\<close>

text \<open>
  An instance of the date parameter: the proleptic Gregorian date of the day
  \<open>\<lfloor>ts / 86400\<rfloor>\<close> after 1 January 1970, written \<open>YYYY-MM-DD\<close>, and an exception outside
  the years 1 to 9999.
\<close>

definition zero_pad :: "nat \<Rightarrow> string \<Rightarrow> string" where
  "zero_pad w s = replicate (w - length s) (CHR ''0'') @ s"

definition civil_from_days :: "int \<Rightarrow> int \<times> int \<times> int" where
  "civil_from_days z0 =
     (let z = z0 + 719468;
          era = z div 146097;
          doe = z mod 146097;
          yoe = (doe - doe div 1460 + doe div 36524 - doe div 146096) div 365;
          doy = doe - (365 * yoe + yoe div 4 - yoe div 100);
          mp = (5 * doy + 2) div 153;
          d = doy - (153 * mp + 2) div 5 + 1;
          m = (if mp < 10 then mp + 3 else mp - 9);
          y = yoe + era * 400 + (if m \<le> 2 then 1 else 0)
      in (y, m, d))"

definition utc_date_iso :: "real \<Rightarrow> py_error + string" where
  "utc_date_iso ts =
     (let (y, m, d) = civil_from_days \<lfloor>ts / 86400\<rfloor>
      in if 1 \<le> y \<and> y \<le> 9999
         then Inr (zero_pad 4 (str_int y) @ ''-'' @ zero_pad 2 (str_int m) @ ''-'' @
                   zero_pad 2 (str_int d))
         else Inl ValueError)"

text \<open>
  An instance of the digest parameter: the identity, so that a fingerprint in the examples
  is the first twelve characters of the canonical string itself.
\<close>

definition plain_digest :: "string \<Rightarrow> string" where
  "plain_digest b = b"

text \<open>
  A logger with no device, and four advertisements: an Apple device without a name, a
  device without any identifier or name, the same with a name, and the Apple device under
  the suppressed name, in another case and with blanks around.
\<close>

definition empty_logger :: logger where
  "empty_logger = \<lparr> devices = [], updated_utc = None, dirty = False, outbox = [] \<rparr>"

definition apple_sighting :: sighting where
  "apple_sighting =
     \<lparr> adv_address = Some ''AA:BB:CC:DD:EE:FF'', adv_name = None, adv_rssi = Some (- 60),
       adv_mfg_data = [(76, [16, 5])], adv_service_uuids = [], adv_service_data_keys = [],
       adv_source = None \<rparr>"

definition anonymous_sighting :: sighting where
  "anonymous_sighting =
     \<lparr> adv_address = Some ''11:22:33:44:55:66'', adv_name = None, adv_rssi = None,
       adv_mfg_data = [], adv_service_uuids = [], adv_service_data_keys = [],
       adv_source = None \<rparr>"

definition named_sighting :: sighting where
  "named_sighting = anonymous_sighting\<lparr>adv_name := Some ''Kitchen Scale''\<rparr>"


text \<open>The fingerprint of the Apple device under \<open>plain_digest\<close>.\<close>

definition apple_fp :: string where
  "apple_fp = ''mfg=76|svc=|''"

text \<open>
  The logger after the Apple device was seen at epoch 1700000000 (14 November 2023), and
  the record it then holds.
\<close>

definition seen_logger :: logger where
  "seen_logger =
     upsert plain_digest ''2023-11-14T22:13:20Z'' 1700000000 apple_sighting empty_logger"

definition seen_rec :: device_rec where
  "seen_rec =
     upsert_rec plain_digest ''2023-11-14T22:13:20Z'' 1700000000 apple_sighting empty_logger"

text \<open>That logger and record after a sweep 130 seconds later.\<close>

definition left_logger :: logger where
  "left_logger =
     projr (mark_left_if_stale utc_date_iso ''2023-11-14T22:15:30Z'' 1700000130 seen_logger)"

definition left_rec :: device_rec where
  "left_rec = the (map_of (devices left_logger) apple_fp)"

text \<open>The same after a sweep exactly 120 seconds later instead.\<close>

definition edge_logger :: logger where
  "edge_logger =
     projr (mark_left_if_stale utc_date_iso ''2023-11-14T22:15:20Z'' 1700000120 seen_logger)"

definition edge_rec :: device_rec where
  "edge_rec = the (map_of (devices edge_logger) apple_fp)"

text \<open>
  Two records as a registry file can hold them: both Present, the first with the last-seen
  epoch 0 that \<open>_migrate_presence_fields\<close> gives a record without one, the second seen at
  epoch 1700000000 but without an enter epoch.  Then the logger that holds them, the
  logger after a sweep at epoch 1700000500, and the two records after that sweep.
\<close>

definition unseen_rec :: device_rec where
  "unseen_rec =
     (new_record ''aaaaaaaaaaaa''
        \<lparr> manufacturer_ids = [], service_uuids = [], service_data_keys = [] \<rparr>
        [] ''unclassified'' ''2023-11-14T22:13:20Z'')\<lparr>present := True\<rparr>"

definition unentered_rec :: device_rec where
  "unentered_rec = unseen_rec\<lparr>fp := ''bbbbbbbbbbbb'', last_seen_ts := Some 1700000000\<rparr>"

definition loaded_logger :: logger where
  "loaded_logger =
     \<lparr> devices = [(''aaaaaaaaaaaa'', unseen_rec), (''bbbbbbbbbbbb'', unentered_rec)],
       updated_utc = None, dirty = False, outbox = [] \<rparr>"

definition swept_logger :: logger where
  "swept_logger =
     projr (mark_left_if_stale utc_date_iso ''2023-11-14T22:21:40Z'' 1700000500 loaded_logger)"

definition kept_rec :: device_rec where
  "kept_rec = the (map_of (devices swept_logger) ''aaaaaaaaaaaa'')"

definition swept_rec :: device_rec where
  "swept_rec = the (map_of (devices swept_logger) ''bbbbbbbbbbbb'')"

text \<open>
  A logger with one Present record whose enter epoch, 1000000000000, lies in the year
  33658.
\<close>

definition far_rec :: device_rec where
  "far_rec = unentered_rec\<lparr>fp := ''cccccccccccc'', last_enter_ts := Some 1000000000000\<rparr>"

definition far_logger :: logger where
  "far_logger =
     \<lparr> devices = [(''cccccccccccc'', far_rec)], updated_utc = None, dirty = False,
       outbox = [] \<rparr>"

text \<open>The logger \<open>loaded_logger\<close> after that sweep and another one at epoch 2000000000.\<close>

definition twice_swept_logger :: logger where
  "twice_swept_logger =
     projr (run_ops plain_digest utc_date_iso loaded_logger
       (sweeps_at [(''2023-11-14T22:21:40Z'', 1700000500), (''2033-05-18T03:33:20Z'', 2000000000)]))"





text \<open>
  What the control loop does after \<open>seen_logger\<close> in one of its runs: the Apple device is
  seen again, another device is seen, a sweep finds the Apple device stale, and the Apple
  device comes back.
\<close>

definition busy_ops :: "op list" where
  "busy_ops =
     [Upsert ''2023-11-14T22:13:21Z'' 1700000001 (apple_sighting\<lparr>adv_rssi := Some (- 55)\<rparr>),
      Upsert ''2023-11-14T22:13:22Z'' 1700000002 named_sighting,
      Sweep ''2023-11-14T22:15:31Z'' 1700000131,
      Upsert ''2023-11-14T22:18:20Z'' 1700000300 apple_sighting]"

definition busy_logger :: logger where
  "busy_logger = projr (run_ops plain_digest utc_date_iso seen_logger busy_ops)"










section \<open>The sweep, record by record\<close>

lemma update_presence_time_cases:
  assumes "update_presence_time dk r leave_ts = Inr r'"
  shows "((last_enter_ts r = None \<or> last_enter_ts r = Some 0) \<and> r' = r) \<or>
         (\<exists>t0 key. last_enter_ts r = Some t0 \<and> t0 \<noteq> 0 \<and> dk t0 = Inr key \<and>
            r' = r\<lparr>presence_by_day :=
                      (presence_by_day r)(key \<mapsto>
                         (case presence_by_day r key of None \<Rightarrow> 0 | Some v \<Rightarrow> v)
                           + max 0 (leave_ts - t0)),
                    last_left_ts := Some leave_ts\<rparr>)"
  using assms
  by (auto simp: update_presence_time_def Let_def split: option.splits if_splits sum.splits)

lemma update_presence_time_defined:
  assumes "\<And>t0. last_enter_ts r = Some t0 \<Longrightarrow> t0 \<noteq> 0 \<Longrightarrow> \<exists>key. dk t0 = Inr key"
  shows "\<exists>r'. update_presence_time dk r leave_ts = Inr r'"
proof (cases "last_enter_ts r")
  case None
  then show ?thesis by (simp add: update_presence_time_def)
next
  case (Some t0)
  show ?thesis
  proof (cases "t0 = 0")
    case True
    with Some show ?thesis by (simp add: update_presence_time_def)
  next
    case False
    with assms Some obtain key where "dk t0 = Inr key" by blast
    with Some False show ?thesis by (simp add: update_presence_time_def Let_def)
  qed
qed

lemma mark_left_rec_cases:
  assumes "mark_left_rec dk now_iso now_ts r = Inr (r', c)"
  shows "(\<not> c \<and> r' = r \<and>
          \<not> (present r \<and> 0 < or_0r (last_seen_ts r) \<and>
               LEAVE_TIMEOUT \<le> now_ts - or_0r (last_seen_ts r))) \<or>
         (c \<and> present r \<and> 0 < or_0r (last_seen_ts r) \<and>
          LEAVE_TIMEOUT \<le> now_ts - or_0r (last_seen_ts r) \<and>
          update_presence_time dk
            (r\<lparr>present := False, last_left := Some now_iso,
                leave_count := Some (or_0 (leave_count r) + 1)\<rparr>) now_ts = Inr r')"
  using assms by (auto simp: mark_left_rec_def Let_def split: if_splits sum.splits)

lemma mark_left_rec_defined:
  assumes "\<And>t0. present r \<Longrightarrow> 0 < or_0r (last_seen_ts r) \<Longrightarrow>
             LEAVE_TIMEOUT \<le> now_ts - or_0r (last_seen_ts r) \<Longrightarrow>
             last_enter_ts r = Some t0 \<Longrightarrow> t0 \<noteq> 0 \<Longrightarrow> \<exists>key. dk t0 = Inr key"
  shows "\<exists>r' c. mark_left_rec dk now_iso now_ts r = Inr (r', c)"
proof (cases "present r \<and> 0 < or_0r (last_seen_ts r) \<and>
               LEAVE_TIMEOUT \<le> now_ts - or_0r (last_seen_ts r)")
  case True
  let ?r1 = "r\<lparr>present := False, last_left := Some now_iso,
                 leave_count := Some (or_0 (leave_count r) + 1)\<rparr>"
  have "\<exists>r'. update_presence_time dk ?r1 now_ts = Inr r'"
    by (rule update_presence_time_defined) (use assms True in simp)
  then obtain r' where "update_presence_time dk ?r1 now_ts = Inr r'" ..
  with True show ?thesis by (auto simp: mark_left_rec_def Let_def)
next
  case False
  then show ?thesis by (auto simp: mark_left_rec_def Let_def)
qed

section \<open>The sweep over the device dictionary\<close>

lemma mark_left_loop_lookup:
  assumes "mark_left_loop dk now_iso now_ts devs d = Inr (devs', d')"
    and "map_of devs k = Some r"
  shows "\<exists>r' c. mark_left_rec dk now_iso now_ts r = Inr (r', c) \<and> map_of devs' k = Some r'"
  using assms
proof (induction devs arbitrary: d devs' d')
  case Nil
  then show ?case by simp
next
  case (Cons a devs)
  obtain k0 r0 where a: "a = (k0, r0)" by (cases a)
  from Cons.prems(1) a obtain r0' c0 rest' where
    h: "mark_left_rec dk now_iso now_ts r0 = Inr (r0', c0)"
       "mark_left_loop dk now_iso now_ts devs (d \<or> c0) = Inr (rest', d')"
       "devs' = (k0, r0') # rest'"
    by (auto split: sum.splits prod.splits)
  show ?case
  proof (cases "k = k0")
    case True
    with Cons.prems(2) a have "r = r0" by simp
    with h True show ?thesis by simp
  next
    case False
    with Cons.prems(2) a have "map_of devs k = Some r" by simp
    from Cons.IH [OF h(2) this] False h(3) show ?thesis by simp
  qed
qed

lemma mark_left_loop_keys:
  "mark_left_loop dk now_iso now_ts devs d = Inr (devs', d') \<Longrightarrow> map fst devs' = map fst devs"
proof (induction devs arbitrary: d devs' d')
  case Nil
  then show ?case by simp
next
  case (Cons a devs)
  obtain k0 r0 where a: "a = (k0, r0)" by (cases a)
  from Cons.prems a obtain r0' c0 rest' where
    h: "mark_left_loop dk now_iso now_ts devs (d \<or> c0) = Inr (rest', d')"
       "devs' = (k0, r0') # rest'"
    by (auto split: sum.splits prod.splits)
  from Cons.IH [OF h(1)] h(2) a show ?case by simp
qed

lemma mark_left_loop_defined:
  assumes "\<And>k r. (k, r) \<in> set devs \<Longrightarrow> \<exists>r' c. mark_left_rec dk now_iso now_ts r = Inr (r', c)"
  shows "\<exists>devs' d'. mark_left_loop dk now_iso now_ts devs d = Inr (devs', d')"
  using assms
proof (induction devs arbitrary: d)
  case Nil
  then show ?case by simp
next
  case (Cons a devs)
  obtain k0 r0 where a: "a = (k0, r0)" by (cases a)
  from Cons.prems a obtain r0' c0 where h: "mark_left_rec dk now_iso now_ts r0 = Inr (r0', c0)"
    by fastforce
  have "\<exists>devs' d'. mark_left_loop dk now_iso now_ts devs (d \<or> c0) = Inr (devs', d')"
    by (rule Cons.IH) (use Cons.prems in auto)
  with h a show ?case by auto
qed

lemma mark_left_if_stale_lookup:
  assumes "mark_left_if_stale dk now_iso now_ts lg = Inr lg'"
    and "map_of (devices lg) k = Some r"
  shows "\<exists>r' c. mark_left_rec dk now_iso now_ts r = Inr (r', c) \<and> map_of (devices lg') k = Some r'"
proof -
  from assms(1) obtain devs' d' where
    l: "mark_left_loop dk now_iso now_ts (devices lg) (dirty lg) = Inr (devs', d')"
    and "devices lg' = devs'"
    by (auto simp: mark_left_if_stale_def split: sum.splits prod.splits)
  with mark_left_loop_lookup [OF l assms(2)] show ?thesis by simp
qed

lemma mark_left_if_stale_keys:
  assumes "mark_left_if_stale dk now_iso now_ts lg = Inr lg'"
  shows "map fst (devices lg') = map fst (devices lg)"
proof -
  from assms obtain devs' d' where
    l: "mark_left_loop dk now_iso now_ts (devices lg) (dirty lg) = Inr (devs', d')"
    and "devices lg' = devs'"
    by (auto simp: mark_left_if_stale_def split: sum.splits prod.splits)
  with mark_left_loop_keys [OF l] show ?thesis by simp
qed

lemma mark_left_if_stale_defined:
  assumes "\<And>k r. (k, r) \<in> set (devices lg) \<Longrightarrow>
             \<exists>r' c. mark_left_rec dk now_iso now_ts r = Inr (r', c)"
  shows "\<exists>lg'. mark_left_if_stale dk now_iso now_ts lg = Inr lg'"
proof -
  from mark_left_loop_defined [of "devices lg" dk now_iso now_ts "dirty lg"] assms
  obtain devs' d' where
    "mark_left_loop dk now_iso now_ts (devices lg) (dirty lg) = Inr (devs', d')"
    by blast
  then show ?thesis by (simp add: mark_left_if_stale_def)
qed

lemma sweep_counters:
  assumes "mark_left_if_stale dk now_iso now_ts lg = Inr lg'"
    and "map_of (devices lg) k = Some r"
  shows "\<exists>r'. map_of (devices lg') k = Some r' \<and>
           seen_count r' = seen_count r \<and>
           enter_count r' = enter_count r \<and>
           or_0 (leave_count r) \<le> or_0 (leave_count r') \<and>
           reenter_count r' = reenter_count r"
proof -
  let ?r1 = "r\<lparr>present := False, last_left := Some now_iso,
                 leave_count := Some (or_0 (leave_count r) + 1)\<rparr>"
  from mark_left_if_stale_lookup [OF assms] obtain r' c where
    m: "mark_left_rec dk now_iso now_ts r = Inr (r', c)" and l: "map_of (devices lg') k = Some r'"
    by blast
  from mark_left_rec_cases [OF m] consider
    (kept) "r' = r"
  | (left) "update_presence_time dk ?r1 now_ts = Inr r'"
    by blast
  then have "seen_count r' = seen_count r \<and> enter_count r' = enter_count r \<and>
           or_0 (leave_count r) \<le> or_0 (leave_count r') \<and> reenter_count r' = reenter_count r"
  proof cases
    case kept
    then show ?thesis by simp
  next
    case left
    from update_presence_time_cases [OF left] show ?thesis
      by (auto simp: or_0_def)
  qed
  with l show ?thesis by simp
qed

section \<open>The record an upsert stores\<close>

lemma upsert_devices:
  "devices (upsert h now_iso now_ts sg lg) =
     AList.update (sighting_fp h sg) (upsert_rec h now_iso now_ts sg lg) (devices lg)"
  by (simp add: upsert_def upsert_rec_def sighting_fp_def Let_def split: prod.splits)

lemma upsert_lookup:
  "map_of (devices (upsert h now_iso now_ts sg lg)) k =
     (if k = sighting_fp h sg then Some (upsert_rec h now_iso now_ts sg lg)
      else map_of (devices lg) k)"
  by (simp add: upsert_devices update_conv')

lemma observe_eq:
  "observe now_iso now_ts sg r =
     r\<lparr>last_seen := now_iso, last_seen_ts := Some now_ts,
       seen_count := Some (or_0 (seen_count r) + 1), last_rssi := adv_rssi sg,
       best_rssi := observed_best sg r, addresses := observed_addresses sg r,
       names_seen := observed_names sg r, last_events := observed_events now_iso sg r\<rparr>"
proof -
  define r1 where "r1 = r\<lparr>last_seen := now_iso, last_seen_ts := Some now_ts,
                      seen_count := Some (or_0 (seen_count r) + 1),
                      last_rssi := adv_rssi sg\<rparr>"
  define r2 where "r2 = r1\<lparr>best_rssi := observed_best sg r\<rparr>"
  define r3 where "r3 = r2\<lparr>addresses := observed_addresses sg r\<rparr>"
  define r4 where "r4 = r3\<lparr>names_seen := observed_names sg r\<rparr>"
  have s2: "(case adv_rssi sg of
                    None \<Rightarrow> r1
                  | Some v \<Rightarrow>
                      (case best_rssi r1 of
                         None \<Rightarrow> r1\<lparr>best_rssi := Some v\<rparr>
                       | Some best \<Rightarrow> if v > best then r1\<lparr>best_rssi := Some v\<rparr> else r1)) = r2"
    by (simp add: r2_def r1_def observed_best_def max_def split: option.splits)
  have s3: "(case adv_address sg of
                    None \<Rightarrow> r2
                  | Some a \<Rightarrow>
                      if a \<noteq> [] \<and> a \<notin> set (addresses r2)
                      then r2\<lparr>addresses := addresses r2 @ [a]\<rparr> else r2) = r3"
    by (simp add: r3_def r2_def r1_def observed_addresses_def split: option.splits)
  have s4: "(case adv_name sg of
                    None \<Rightarrow> r3
                  | Some n \<Rightarrow>
                      if n \<noteq> [] \<and> n \<notin> set (names_seen r3)
                      then r3\<lparr>names_seen := names_seen r3 @ [n]\<rparr> else r3) = r4"
    by (simp add: r4_def r3_def r2_def r1_def observed_names_def split: option.splits)
  have s5: "last_events r4 = last_events r"
    by (simp add: r4_def r3_def r2_def r1_def)
  have "observe now_iso now_ts sg r = r4\<lparr>last_events := observed_events now_iso sg r\<rparr>"
    unfolding observe_def Let_def r1_def [symmetric] s2 s3 s4 s5 observed_events_def ..
  then show ?thesis
    by (simp add: r4_def r3_def r2_def r1_def)
qed

lemma observe_presence [simp]:
  "present (observe now_iso now_ts sg r) = present r"
  "last_left (observe now_iso now_ts sg r) = last_left r"
  "last_enter (observe now_iso now_ts sg r) = last_enter r"
  "last_enter_ts (observe now_iso now_ts sg r) = last_enter_ts r"
  "last_left_ts (observe now_iso now_ts sg r) = last_left_ts r"
  "enter_count (observe now_iso now_ts sg r) = enter_count r"
  "leave_count (observe now_iso now_ts sg r) = leave_count r"
  "reenter_count (observe now_iso now_ts sg r) = reenter_count r"
  "presence_by_day (observe now_iso now_ts sg r) = presence_by_day r"
  "primary_tag (observe now_iso now_ts sg r) = primary_tag r"
  by (simp_all add: observe_eq)

lemma observe_seen [simp]:
  "seen_count (observe now_iso now_ts sg r) = Some (or_0 (seen_count r) + 1)"
  "last_seen_ts (observe now_iso now_ts sg r) = Some now_ts"
  "last_rssi (observe now_iso now_ts sg r) = adv_rssi sg"
  by (simp_all add: observe_eq)

lemma observe_best_rssi:
  "best_rssi (observe now_iso now_ts sg r) =
     (case adv_rssi sg of
        None \<Rightarrow> best_rssi r
      | Some v \<Rightarrow> (case best_rssi r of None \<Rightarrow> Some v | Some b \<Rightarrow> Some (max b v)))"
  by (simp add: observe_eq observed_best_def)

lemma enter_fields [simp]:
  "present (enter now_iso now_ts r)"
  "last_enter (enter now_iso now_ts r) = Some now_iso"
  "last_enter_ts (enter now_iso now_ts r) = Some now_ts"
  "enter_count (enter now_iso now_ts r) = Some (or_0 (enter_count r) + 1)"
  "reenter_count (enter now_iso now_ts r) =
     (if last_left r \<noteq> None then Some (or_0 (reenter_count r) + 1) else reenter_count r)"
  "last_left (enter now_iso now_ts r) = last_left r"
  "last_left_ts (enter now_iso now_ts r) = last_left_ts r"
  "leave_count (enter now_iso now_ts r) = leave_count r"
  "seen_count (enter now_iso now_ts r) = seen_count r"
  "last_seen_ts (enter now_iso now_ts r) = last_seen_ts r"
  "last_rssi (enter now_iso now_ts r) = last_rssi r"
  "best_rssi (enter now_iso now_ts r) = best_rssi r"
  "presence_by_day (enter now_iso now_ts r) = presence_by_day r"
  "primary_tag (enter now_iso now_ts r) = primary_tag r"
  by (simp_all add: enter_def Let_def)

lemma new_record_fields [simp]:
  "present (new_record k mat tgs primary now_iso) = False"
  "primary_tag (new_record k mat tgs primary now_iso) = Some primary"
  "seen_count (new_record k mat tgs primary now_iso) = Some 0"
  "enter_count (new_record k mat tgs primary now_iso) = Some 0"
  "leave_count (new_record k mat tgs primary now_iso) = Some 0"
  "reenter_count (new_record k mat tgs primary now_iso) = Some 0"
  "last_left (new_record k mat tgs primary now_iso) = None"
  "best_rssi (new_record k mat tgs primary now_iso) = None"
  "presence_by_day (new_record k mat tgs primary now_iso) = Map.empty"
  by (simp_all add: new_record_def)

lemma upsert_rec_eq:
  "upsert_rec h now_iso now_ts sg lg =
     (if present (lookup_or_new h now_iso sg lg)
      then observe now_iso now_ts sg (lookup_or_new h now_iso sg lg)
      else enter now_iso now_ts (observe now_iso now_ts sg (lookup_or_new h now_iso sg lg)))"
  by (simp add: upsert_rec_def lookup_or_new_def Let_def split_beta)

lemma lookup_or_new_found:
  "map_of (devices lg) (sighting_fp h sg) = Some r \<Longrightarrow> lookup_or_new h now_iso sg lg = r"
  by (simp add: lookup_or_new_def sighting_fp_def Let_def split_beta)

lemma lookup_or_new_fresh:
  assumes "map_of (devices lg) (sighting_fp h sg) = None"
  shows "\<exists>k mat tgs primary.
           lookup_or_new h now_iso sg lg = new_record k mat tgs primary now_iso \<and>
           primary = snd (classify_tags (Some (map fst (adv_mfg_data sg)))
                            (Some (adv_service_uuids sg)))"
  using assms
  by (simp add: lookup_or_new_def sighting_fp_def Let_def split_beta) blast

lemma upsert_rec_found:
  assumes "map_of (devices lg) (sighting_fp h sg) = Some r"
  shows "upsert_rec h now_iso now_ts sg lg =
           (if present r then observe now_iso now_ts sg r
            else enter now_iso now_ts (observe now_iso now_ts sg r))"
  by (simp add: upsert_rec_eq lookup_or_new_found [OF assms])

lemma upsert_rec_fresh:
  assumes "map_of (devices lg) (sighting_fp h sg) = None"
  shows "\<exists>k mat tgs primary.
           upsert_rec h now_iso now_ts sg lg =
             enter now_iso now_ts (observe now_iso now_ts sg (new_record k mat tgs primary now_iso))"
proof -
  from lookup_or_new_fresh [OF assms, of now_iso] obtain k mat tgs primary where
    "lookup_or_new h now_iso sg lg = new_record k mat tgs primary now_iso"
    by blast
  then have "upsert_rec h now_iso now_ts sg lg =
      enter now_iso now_ts (observe now_iso now_ts sg (new_record k mat tgs primary now_iso))"
    by (simp add: upsert_rec_eq)
  then show ?thesis by blast
qed


lemma upsert_counters:
  assumes "map_of (devices lg) k = Some r"
  shows "\<exists>r'. map_of (devices (upsert h now_iso now_ts sg lg)) k = Some r' \<and>
           or_0 (seen_count r') = or_0 (seen_count r) + (if sighting_fp h sg = k then 1 else 0) \<and>
           or_0 (enter_count r) \<le> or_0 (enter_count r') \<and>
           or_0 (leave_count r) \<le> or_0 (leave_count r') \<and>
           or_0 (reenter_count r) \<le> or_0 (reenter_count r')"
proof (cases "sighting_fp h sg = k")
  case True
  with assms show ?thesis
    by (simp add: upsert_lookup upsert_rec_found or_0_def)
next
  case False
  with assms show ?thesis
    by (simp add: upsert_lookup)
qed

section \<open>Facts about the values of the examples\<close>

lemma apple_sighting_fp: "sighting_fp plain_digest apple_sighting = apple_fp"
  by code_simp

lemma seen_logger_lookup: "map_of (devices seen_logger) apple_fp = Some seen_rec"
  unfolding seen_logger_def seen_rec_def upsert_lookup apple_sighting_fp by simp

lemma seen_rec_fields:
  "present seen_rec"
  "last_seen_ts seen_rec = Some 1700000000"
  "last_enter_ts seen_rec = Some 1700000000"
  "seen_count seen_rec = Some 1"
  "enter_count seen_rec = Some 1"
  "leave_count seen_rec = Some 0"
  "reenter_count seen_rec = Some 0"
  "last_rssi seen_rec = Some (- 60)"
  "best_rssi seen_rec = Some (- 60)"
  by code_simp+


lemma left_logger_sweep:
  "mark_left_if_stale utc_date_iso ''2023-11-14T22:15:30Z'' 1700000130 seen_logger
     = Inr left_logger"
proof -
  have "\<not> isl (mark_left_if_stale utc_date_iso ''2023-11-14T22:15:30Z'' 1700000130 seen_logger)"
    by code_simp
  then show ?thesis
    by (simp add: left_logger_def)
qed

lemma left_logger_lookup: "map_of (devices left_logger) apple_fp = Some left_rec"
  using mark_left_if_stale_lookup [OF left_logger_sweep seen_logger_lookup]
  by (auto simp: left_rec_def)

lemma left_rec_fields:
  "\<not> present left_rec"
  "last_left left_rec = Some ''2023-11-14T22:15:30Z''"
  "enter_count left_rec = Some 1"
  "reenter_count left_rec = Some 0"
  by code_simp+

lemma edge_logger_sweep:
  "mark_left_if_stale utc_date_iso ''2023-11-14T22:15:20Z'' 1700000120 seen_logger
     = Inr edge_logger"
proof -
  have "\<not> isl (mark_left_if_stale utc_date_iso ''2023-11-14T22:15:20Z'' 1700000120 seen_logger)"
    by code_simp
  then show ?thesis
    by (simp add: edge_logger_def)
qed

lemma edge_logger_lookup: "map_of (devices edge_logger) apple_fp = Some edge_rec"
  using mark_left_if_stale_lookup [OF edge_logger_sweep seen_logger_lookup]
  by (auto simp: edge_rec_def)

lemma loaded_logger_lookup:
  "map_of (devices loaded_logger) ''aaaaaaaaaaaa'' = Some unseen_rec"
  "map_of (devices loaded_logger) ''bbbbbbbbbbbb'' = Some unentered_rec"
  by (simp_all add: loaded_logger_def)

lemma swept_logger_sweep:
  "mark_left_if_stale utc_date_iso ''2023-11-14T22:21:40Z'' 1700000500 loaded_logger
     = Inr swept_logger"
proof -
  have "\<not> isl (mark_left_if_stale utc_date_iso ''2023-11-14T22:21:40Z'' 1700000500
    loaded_logger)"
    by code_simp
  then show ?thesis
    by (simp add: swept_logger_def)
qed

lemma swept_logger_lookup:
  "map_of (devices swept_logger) ''aaaaaaaaaaaa'' = Some kept_rec"
  "map_of (devices swept_logger) ''bbbbbbbbbbbb'' = Some swept_rec"
  using mark_left_if_stale_lookup [OF swept_logger_sweep loaded_logger_lookup(1)]
    mark_left_if_stale_lookup [OF swept_logger_sweep loaded_logger_lookup(2)]
  by (auto simp: kept_rec_def swept_rec_def)

lemma twice_swept_logger_run:
  "run_ops plain_digest utc_date_iso loaded_logger
     (sweeps_at [(''2023-11-14T22:21:40Z'', 1700000500), (''2033-05-18T03:33:20Z'', 2000000000)])
     = Inr twice_swept_logger"
proof -
  have "\<not> isl (run_ops plain_digest utc_date_iso loaded_logger
     (sweeps_at [(''2023-11-14T22:21:40Z'', 1700000500),
                 (''2033-05-18T03:33:20Z'', 2000000000)]))"
    by code_simp
  then show ?thesis
    by (simp add: twice_swept_logger_def)
qed





lemma busy_logger_run: "run_ops plain_digest utc_date_iso seen_logger busy_ops = Inr busy_logger"
proof -
  have "\<not> isl (run_ops plain_digest utc_date_iso seen_logger busy_ops)"
    by code_simp
  then show ?thesis
    by (simp add: busy_logger_def)
qed




section \<open>The fingerprint engine\<close>

text \<open>
  Claim C1.  The result of \<open>compute_fingerprint\<close>, fingerprint and material, depends only on
  the sets of its three arguments: two calls whose manufacturer ids, service UUIDs and
  service-data keys have the same elements, in any order and with any repetition, return
  the same pair.  \<open>None\<close> and the empty list both stand for the empty set.
\<close>

theorem compute_fingerprint_sets:
  assumes "set (or_empty m) = set (or_empty m')"
    and "set (or_empty s) = set (or_empty s')"
    and "set (or_empty d) = set (or_empty d')"
  shows "compute_fingerprint h m s d = compute_fingerprint h m' s' d'"
  using assms by (simp add: compute_fingerprint_def sorted_set_def)

theorem compute_fingerprint_sets_witness:
  "set (or_empty (Some [76, 3, 76 :: int])) = set (or_empty (Some [3, 76]))
   \<and> set (or_empty (None :: string list option)) = set (or_empty (Some []))
   \<and> set (or_empty (Some [''fe9f'', ''180a''])) = set (or_empty (Some [''180a'', ''fe9f'', ''180a'']))
   \<and> compute_fingerprint plain_digest (Some [76, 3, 76]) None (Some [''fe9f'', ''180a''])
     = compute_fingerprint plain_digest (Some [3, 76]) (Some []) (Some [''180a'', ''fe9f'', ''180a''])
   \<and> fst (compute_fingerprint plain_digest (Some [3, 76]) (Some [])
            (Some [''180a'', ''fe9f'', ''180a''])) = ''mfg=3,76|svc''"
proof -
  have a: "set (or_empty (Some [76, 3, 76 :: int])) = set (or_empty (Some [3, 76]))"
    by (simp add: or_empty_def insert_commute)
  have b: "set (or_empty (None :: string list option)) = set (or_empty (Some []))"
    by (simp add: or_empty_def)
  have c: "set (or_empty (Some [''fe9f'', ''180a'']))
      = set (or_empty (Some [''180a'', ''fe9f'', ''180a'']))"
    by (simp add: or_empty_def insert_commute)
  have v: "fst (compute_fingerprint plain_digest (Some [3, 76]) (Some [])
            (Some [''180a'', ''fe9f'', ''180a''])) = ''mfg=3,76|svc''"
    by code_simp
  from compute_fingerprint_sets [OF a b c, of plain_digest] a b c v show ?thesis
    by blast
qed

section \<open>The staleness sweep\<close>

text \<open>
  Claim C2, as the code has it.  When a sweep at \<open>now_ts\<close> completes, it keeps the keys of
  the device dictionary, and for every record \<open>r\<close>: if \<open>r\<close> is Present, its last-seen epoch
  is positive and lies at least \<open>LEAVE_TIMEOUT\<close> (120 seconds) before \<open>now_ts\<close>, the record
  becomes Absent, \<open>last_left\<close> is stamped, \<open>leave_count\<close> is incremented, \<open>last_left_ts\<close> is
  stamped when the record has a non-zero enter epoch, and no field other than these and
  the dwell aggregation changes; every other record, Absent or Present, is left as it is.
  The sweep completes when the date conversion succeeds on the enter epoch of each record
  it transitions.
\<close>

theorem mark_left_if_stale_transitions:
  "(mark_left_if_stale dk now_iso now_ts lg = Inr lg' \<and> map_of (devices lg) k = Some r \<longrightarrow>
      map fst (devices lg') = map fst (devices lg) \<and>
      (\<exists>r'. map_of (devices lg') k = Some r' \<and>
         (if present r \<and> 0 < or_0r (last_seen_ts r) \<and>
             LEAVE_TIMEOUT \<le> now_ts - or_0r (last_seen_ts r)
          then \<exists>agg left_ts.
                 r' = r\<lparr>present := False, last_left := Some now_iso,
                         leave_count := Some (or_0 (leave_count r) + 1),
                         presence_by_day := agg, last_left_ts := left_ts\<rparr> \<and>
                 (\<forall>t0. last_enter_ts r = Some t0 \<and> t0 \<noteq> 0 \<longrightarrow> left_ts = Some now_ts)
          else r' = r)))
   \<and> ((\<forall>k r t0. (k, r) \<in> set (devices lg) \<and> present r \<and> 0 < or_0r (last_seen_ts r) \<and>
           LEAVE_TIMEOUT \<le> now_ts - or_0r (last_seen_ts r) \<and>
           last_enter_ts r = Some t0 \<and> t0 \<noteq> 0 \<longrightarrow> (\<exists>key. dk t0 = Inr key))
        \<longrightarrow> (\<exists>lg'. mark_left_if_stale dk now_iso now_ts lg = Inr lg'))"
proof (intro conjI impI)
  assume a: "mark_left_if_stale dk now_iso now_ts lg = Inr lg' \<and> map_of (devices lg) k = Some r"
  then show "map fst (devices lg') = map fst (devices lg)"
    using mark_left_if_stale_keys by blast
  from a mark_left_if_stale_lookup obtain r' c where
    m: "mark_left_rec dk now_iso now_ts r = Inr (r', c)" and l: "map_of (devices lg') k = Some r'"
    by blast
  let ?stale = "present r \<and> 0 < or_0r (last_seen_ts r) \<and>
             LEAVE_TIMEOUT \<le> now_ts - or_0r (last_seen_ts r)"
  let ?r1 = "r\<lparr>present := False, last_left := Some now_iso,
                 leave_count := Some (or_0 (leave_count r) + 1)\<rparr>"
  let ?post = "\<lambda>r'. \<exists>agg left_ts.
                 r' = r\<lparr>present := False, last_left := Some now_iso,
                         leave_count := Some (or_0 (leave_count r) + 1),
                         presence_by_day := agg, last_left_ts := left_ts\<rparr> \<and>
                 (\<forall>t0. last_enter_ts r = Some t0 \<and> t0 \<noteq> 0 \<longrightarrow> left_ts = Some now_ts)"
  show "\<exists>r'. map_of (devices lg') k = Some r' \<and> (if ?stale then ?post r' else r' = r)"
  proof (cases ?stale)
    case False
    with mark_left_rec_cases [OF m] have "r' = r" by blast
    with l False show ?thesis by auto
  next
    case True
    with mark_left_rec_cases [OF m] have u: "update_presence_time dk ?r1 now_ts = Inr r'"
      by blast
    from update_presence_time_cases [OF u] consider
      (no_enter) "last_enter_ts r = None \<or> last_enter_ts r = Some 0" "r' = ?r1"
    | (entered) t0 key where "last_enter_ts r = Some t0" "t0 \<noteq> 0"
        "r' = ?r1\<lparr>presence_by_day :=
                      (presence_by_day r)(key \<mapsto>
                         (case presence_by_day r key of None \<Rightarrow> 0 | Some v \<Rightarrow> v)
                           + max 0 (now_ts - t0)),
                    last_left_ts := Some now_ts\<rparr>"
      by auto
    then have "?post r'"
    proof cases
      case no_enter
      then show ?thesis
        by (intro exI [of _ "presence_by_day r"] exI [of _ "last_left_ts r"]) auto
    next
      case entered
      then show ?thesis
        by (intro exI [of _ "presence_by_day r'"] exI [of _ "Some now_ts"]) simp
    qed
    with l True show ?thesis by auto
  qed
next
  assume d: "\<forall>k r t0. (k, r) \<in> set (devices lg) \<and> present r \<and> 0 < or_0r (last_seen_ts r) \<and>
           LEAVE_TIMEOUT \<le> now_ts - or_0r (last_seen_ts r) \<and>
           last_enter_ts r = Some t0 \<and> t0 \<noteq> 0 \<longrightarrow> (\<exists>key. dk t0 = Inr key)"
  show "\<exists>lg'. mark_left_if_stale dk now_iso now_ts lg = Inr lg'"
  proof (rule mark_left_if_stale_defined)
    fix k r
    assume "(k, r) \<in> set (devices lg)"
    with d show "\<exists>r' c. mark_left_rec dk now_iso now_ts r = Inr (r', c)"
      by (intro mark_left_rec_defined) blast
  qed
qed

text \<open>
  The Apple device, seen once at epoch 1700000000, is taken to Absent by the sweep 130
  seconds later.
\<close>

theorem mark_left_if_stale_transitions_witness:
  "mark_left_if_stale utc_date_iso ''2023-11-14T22:15:30Z'' 1700000130 seen_logger = Inr left_logger
   \<and> map_of (devices seen_logger) apple_fp = Some seen_rec
   \<and> present seen_rec \<and> last_seen_ts seen_rec = Some 1700000000
   \<and> last_enter_ts seen_rec = Some 1700000000 \<and> leave_count seen_rec = Some 0
   \<and> map fst (devices left_logger) = map fst (devices seen_logger)
   \<and> (\<exists>r'. map_of (devices left_logger) apple_fp = Some r' \<and> \<not> present r' \<and>
         last_left r' = Some ''2023-11-14T22:15:30Z'' \<and> leave_count r' = Some 1 \<and>
         last_left_ts r' = Some 1700000130 \<and> seen_count r' = seen_count seen_rec)"
proof -
  note a = left_logger_sweep and b = seen_logger_lookup
    and c = seen_rec_fields(1) seen_rec_fields(2) seen_rec_fields(3) seen_rec_fields(6)
  from mark_left_if_stale_transitions
    [of utc_date_iso "''2023-11-14T22:15:30Z''" 1700000130 seen_logger left_logger
        apple_fp seen_rec] a b c
  obtain r' agg left_ts where
    r: "map fst (devices left_logger) = map fst (devices seen_logger)"
       "map_of (devices left_logger) apple_fp = Some r'"
       "r' = seen_rec\<lparr>present := False, last_left := Some ''2023-11-14T22:15:30Z'',
                       leave_count := Some (or_0 (leave_count seen_rec) + 1),
                       presence_by_day := agg, last_left_ts := left_ts\<rparr>"
       "left_ts = Some 1700000130"
    by (auto simp: or_0r_def LEAVE_TIMEOUT_def)
  from r c have "\<not> present r' \<and> last_left r' = Some ''2023-11-14T22:15:30Z'' \<and>
      leave_count r' = Some 1 \<and> last_left_ts r' = Some 1700000130 \<and>
      seen_count r' = seen_count seen_rec"
    by (simp add: or_0_def)
  with a b c r(1,2) show ?thesis by blast
qed

text \<open>
  The claim as stated fails in four places.  The Apple device, last seen at epoch
  1700000000, is taken to Absent by the sweep at epoch 1700000120: exactly the timeout
  later, not more.  The Present record \<open>unseen_rec\<close>, with the last-seen epoch 0, is still
  Present after the sweep at epoch 1700000500.  The Present record \<open>unentered_rec\<close>, which
  has no enter epoch, is taken to Absent by that sweep, and its \<open>last_left_ts\<close> is not
  stamped.  The sweep of \<open>far_logger\<close> at that epoch does not complete: the record is
  stale, the date conversion rejects its enter epoch, and the exception leaves the sweep.
\<close>

theorem mark_left_if_stale_transitions_counterexample:
  "map_of (devices seen_logger) apple_fp = Some seen_rec
   \<and> present seen_rec \<and> last_seen_ts seen_rec = Some 1700000000
   \<and> \<not> LEAVE_TIMEOUT < 1700000120 - 1700000000
   \<and> mark_left_if_stale utc_date_iso ''2023-11-14T22:15:20Z'' 1700000120 seen_logger
       = Inr edge_logger
   \<and> map_of (devices edge_logger) apple_fp = Some edge_rec
   \<and> \<not> present edge_rec \<and> leave_count edge_rec = Some 1
   \<and> map_of (devices loaded_logger) ''aaaaaaaaaaaa'' = Some unseen_rec
   \<and> present unseen_rec \<and> last_seen_ts unseen_rec = Some 0
   \<and> LEAVE_TIMEOUT < 1700000500 - 0
   \<and> map_of (devices loaded_logger) ''bbbbbbbbbbbb'' = Some unentered_rec
   \<and> present unentered_rec \<and> last_seen_ts unentered_rec = Some 1700000000
   \<and> last_enter_ts unentered_rec = None
   \<and> mark_left_if_stale utc_date_iso ''2023-11-14T22:21:40Z'' 1700000500 loaded_logger
       = Inr swept_logger
   \<and> map_of (devices swept_logger) ''aaaaaaaaaaaa'' = Some kept_rec
   \<and> present kept_rec \<and> leave_count kept_rec = Some 0
   \<and> map_of (devices swept_logger) ''bbbbbbbbbbbb'' = Some swept_rec
   \<and> \<not> present swept_rec \<and> leave_count swept_rec = Some 1 \<and> last_left_ts swept_rec = None
   \<and> map_of (devices far_logger) ''cccccccccccc'' = Some far_rec
   \<and> present far_rec \<and> last_seen_ts far_rec = Some 1700000000
   \<and> last_enter_ts far_rec = Some 1000000000000
   \<and> utc_date_iso 1000000000000 = Inl ValueError
   \<and> mark_left_if_stale utc_date_iso ''2023-11-14T22:21:40Z'' 1700000500 far_logger
       = Inl ValueError"
proof -
  have t: "\<not> LEAVE_TIMEOUT < 1700000120 - 1700000000" "LEAVE_TIMEOUT < 1700000500 - 0"
    by (simp_all add: LEAVE_TIMEOUT_def)
  have f: "map_of (devices far_logger) ''cccccccccccc'' = Some far_rec"
    "present far_rec" "last_seen_ts far_rec = Some 1700000000"
    "last_enter_ts far_rec = Some 1000000000000"
    by (simp_all add: far_logger_def far_rec_def unentered_rec_def unseen_rec_def new_record_def)
  have d: "utc_date_iso 1000000000000 = Inl ValueError"
    by code_simp
  have "isl (mark_left_if_stale utc_date_iso ''2023-11-14T22:21:40Z'' 1700000500 far_logger)"
    and "projl (mark_left_if_stale utc_date_iso ''2023-11-14T22:21:40Z'' 1700000500 far_logger)
      = ValueError"
    by code_simp+
  then have x: "mark_left_if_stale utc_date_iso ''2023-11-14T22:21:40Z'' 1700000500 far_logger
       = Inl ValueError"
    by (metis sum.collapse(1))
  have e: "\<not> present edge_rec" "leave_count edge_rec = Some 1"
    by code_simp+
  have u: "present unseen_rec" "last_seen_ts unseen_rec = Some 0"
    "present unentered_rec" "last_seen_ts unentered_rec = Some 1700000000"
    "last_enter_ts unentered_rec = None"
    by (simp_all add: unentered_rec_def unseen_rec_def new_record_def)
  have s: "present kept_rec" "leave_count kept_rec = Some 0"
    "\<not> present swept_rec" "leave_count swept_rec = Some 1" "last_left_ts swept_rec = None"
    by code_simp+
  from seen_logger_lookup seen_rec_fields(1,2) t edge_logger_sweep edge_logger_lookup e
    loaded_logger_lookup u swept_logger_sweep swept_logger_lookup s f d x
  show ?thesis by blast
qed

section \<open>The dwell aggregation\<close>




section \<open>The notification policy\<close>



section \<open>The registry store\<close>





section \<open>The counters of a record\<close>

text \<open>
  Claim C7.  An upsert that finds its record Absent makes it Present and increments
  \<open>enter_count\<close>; it increments \<open>reenter_count\<close> when the record carries a leave timestamp
  (\<open>last_left\<close>) and leaves \<open>reenter_count\<close> as it is when the record carries none.  An
  upsert that creates the record leaves it Present with \<open>enter_count\<close> 1 and
  \<open>reenter_count\<close> 0.  An upsert that finds its record Present changes neither counter.
\<close>

theorem reenter_counting:
  "(map_of (devices lg) (sighting_fp h sg) = Some r \<and> \<not> present r \<longrightarrow>
      (\<exists>r'. map_of (devices (upsert h now_iso now_ts sg lg)) (sighting_fp h sg) = Some r' \<and>
         present r' \<and> enter_count r' = Some (or_0 (enter_count r) + 1) \<and>
         (last_left r \<noteq> None \<longrightarrow> reenter_count r' = Some (or_0 (reenter_count r) + 1)) \<and>
         (last_left r = None \<longrightarrow> reenter_count r' = reenter_count r)))
   \<and> (map_of (devices lg) (sighting_fp h sg) = None \<longrightarrow>
      (\<exists>r'. map_of (devices (upsert h now_iso now_ts sg lg)) (sighting_fp h sg) = Some r' \<and>
         present r' \<and> enter_count r' = Some 1 \<and> reenter_count r' = Some 0))
   \<and> (map_of (devices lg) (sighting_fp h sg) = Some r \<and> present r \<longrightarrow>
      (\<exists>r'. map_of (devices (upsert h now_iso now_ts sg lg)) (sighting_fp h sg) = Some r' \<and>
         present r' \<and> enter_count r' = enter_count r \<and> reenter_count r' = reenter_count r))"
proof (intro conjI impI)
  assume "map_of (devices lg) (sighting_fp h sg) = Some r \<and> \<not> present r"
  then show "\<exists>r'. map_of (devices (upsert h now_iso now_ts sg lg)) (sighting_fp h sg) = Some r' \<and>
         present r' \<and> enter_count r' = Some (or_0 (enter_count r) + 1) \<and>
         (last_left r \<noteq> None \<longrightarrow> reenter_count r' = Some (or_0 (reenter_count r) + 1)) \<and>
         (last_left r = None \<longrightarrow> reenter_count r' = reenter_count r)"
    by (simp add: upsert_lookup upsert_rec_found)
next
  assume a: "map_of (devices lg) (sighting_fp h sg) = None"
  from upsert_rec_fresh [OF a, of now_iso now_ts] obtain k mat tgs primary where
    "upsert_rec h now_iso now_ts sg lg =
       enter now_iso now_ts (observe now_iso now_ts sg (new_record k mat tgs primary now_iso))"
    by blast
  then show "\<exists>r'. map_of (devices (upsert h now_iso now_ts sg lg)) (sighting_fp h sg) = Some r' \<and>
         present r' \<and> enter_count r' = Some 1 \<and> reenter_count r' = Some 0"
    by (simp add: upsert_lookup or_0_def)
next
  assume "map_of (devices lg) (sighting_fp h sg) = Some r \<and> present r"
  then show "\<exists>r'. map_of (devices (upsert h now_iso now_ts sg lg)) (sighting_fp h sg) = Some r' \<and>
         present r' \<and> enter_count r' = enter_count r \<and> reenter_count r' = reenter_count r"
    by (simp add: upsert_lookup upsert_rec_found)
qed

text \<open>
  The Apple device comes back 170 seconds after the sweep that took it to Absent: a
  second enter and a first re-enter.  Its first enter, into the empty logger, was no
  re-enter.
\<close>

theorem reenter_counting_witness:
  "map_of (devices left_logger) (sighting_fp plain_digest apple_sighting) = Some left_rec
   \<and> \<not> present left_rec \<and> last_left left_rec = Some ''2023-11-14T22:15:30Z''
   \<and> enter_count left_rec = Some 1 \<and> reenter_count left_rec = Some 0
   \<and> (\<exists>r'. map_of (devices (upsert plain_digest ''2023-11-14T22:18:20Z'' 1700000300
                  apple_sighting left_logger)) (sighting_fp plain_digest apple_sighting)
               = Some r' \<and>
         present r' \<and> enter_count r' = Some 2 \<and> reenter_count r' = Some 1)
   \<and> map_of (devices empty_logger) (sighting_fp plain_digest apple_sighting) = None
   \<and> (\<exists>r'. map_of (devices (upsert plain_digest ''2023-11-14T22:13:20Z'' 1700000000
                  apple_sighting empty_logger)) (sighting_fp plain_digest apple_sighting)
               = Some r' \<and>
         present r' \<and> enter_count r' = Some 1 \<and> reenter_count r' = Some 0)"
proof -
  have a: "map_of (devices left_logger) (sighting_fp plain_digest apple_sighting) = Some left_rec"
    by (simp add: apple_sighting_fp left_logger_lookup)
  note b = left_rec_fields
  have c: "map_of (devices empty_logger) (sighting_fp plain_digest apple_sighting) = None"
    by (simp add: empty_logger_def)
  from reenter_counting
    [of left_logger plain_digest apple_sighting left_rec "''2023-11-14T22:18:20Z''" 1700000300]
    a b
  have d: "\<exists>r'. map_of (devices (upsert plain_digest ''2023-11-14T22:18:20Z'' 1700000300
                  apple_sighting left_logger)) (sighting_fp plain_digest apple_sighting)
               = Some r' \<and>
         present r' \<and> enter_count r' = Some 2 \<and> reenter_count r' = Some 1"
    by (simp add: or_0_def)
  from reenter_counting
    [of empty_logger plain_digest apple_sighting left_rec "''2023-11-14T22:13:20Z''" 1700000000]
    c
  have e: "\<exists>r'. map_of (devices (upsert plain_digest ''2023-11-14T22:13:20Z'' 1700000000
                  apple_sighting empty_logger)) (sighting_fp plain_digest apple_sighting)
               = Some r' \<and>
         present r' \<and> enter_count r' = Some 1 \<and> reenter_count r' = Some 0"
    by simp
  from a b c d e show ?thesis by blast
qed

text \<open>
  Claim C8.  Through any sequence of upserts and sweeps that the control loop completes, a
  record stays in the registry, its \<open>seen_count\<close>, \<open>enter_count\<close>, \<open>leave_count\<close> and
  \<open>reenter_count\<close>, read as the code reads them (\<open>int(x or 0)\<close>), do not decrease, and its
  \<open>seen_count\<close> grows by exactly the number of upserts of its fingerprint in the sequence:
  by one for each such upsert, whether the record is Present or Absent then, and by
  nothing for a sweep or an upsert of another fingerprint.  A record that an upsert
  creates has \<open>seen_count\<close> 1.
\<close>

theorem counters_monotone:
  "(run_ops h dk lg ops = Inr lg' \<and> map_of (devices lg) k = Some r \<longrightarrow>
      (\<exists>r'. map_of (devices lg') k = Some r' \<and>
         or_0 (seen_count r') = or_0 (seen_count r) + int (length (filter (upsert_of h k) ops)) \<and>
         or_0 (seen_count r) \<le> or_0 (seen_count r') \<and>
         or_0 (enter_count r) \<le> or_0 (enter_count r') \<and>
         or_0 (leave_count r) \<le> or_0 (leave_count r') \<and>
         or_0 (reenter_count r) \<le> or_0 (reenter_count r')))
   \<and> (map_of (devices lg) (sighting_fp h sg) = None \<longrightarrow>
        (\<exists>r'. map_of (devices (upsert h now_iso now_ts sg lg)) (sighting_fp h sg) = Some r' \<and>
           seen_count r' = Some 1))"
proof (intro conjI impI)
  assume "run_ops h dk lg ops = Inr lg' \<and> map_of (devices lg) k = Some r"
  then have "\<exists>r'. map_of (devices lg') k = Some r' \<and>
         or_0 (seen_count r') = or_0 (seen_count r) + int (length (filter (upsert_of h k) ops)) \<and>
         or_0 (enter_count r) \<le> or_0 (enter_count r') \<and>
         or_0 (leave_count r) \<le> or_0 (leave_count r') \<and>
         or_0 (reenter_count r) \<le> or_0 (reenter_count r')"
  proof (induction ops arbitrary: lg r)
    case Nil
    then show ?case by auto
  next
    case (Cons x ops)
    from Cons.prems obtain lg1 where
      s: "step h dk lg x = Inr lg1" and rest: "run_ops h dk lg1 ops = Inr lg'"
      and l: "map_of (devices lg) k = Some r"
      by (auto split: sum.splits)
    have "\<exists>r1. map_of (devices lg1) k = Some r1 \<and>
           or_0 (seen_count r1) = or_0 (seen_count r) + (if upsert_of h k x then 1 else 0) \<and>
           or_0 (enter_count r) \<le> or_0 (enter_count r1) \<and>
           or_0 (leave_count r) \<le> or_0 (leave_count r1) \<and>
           or_0 (reenter_count r) \<le> or_0 (reenter_count r1)"
    proof (cases x)
      case (Upsert now_iso now_ts sg)
      with s have "lg1 = upsert h now_iso now_ts sg lg" by simp
      with upsert_counters [OF l, of h now_iso now_ts sg] Upsert show ?thesis
        by (simp add: upsert_of_def)
    next
      case (Sweep now_iso now_ts)
      with s have "mark_left_if_stale dk now_iso now_ts lg = Inr lg1" by simp
      from sweep_counters [OF this l] Sweep show ?thesis
        by (auto simp: upsert_of_def)
    qed
    then obtain r1 where r1: "map_of (devices lg1) k = Some r1"
      "or_0 (seen_count r1) = or_0 (seen_count r) + (if upsert_of h k x then 1 else 0)"
      "or_0 (enter_count r) \<le> or_0 (enter_count r1)"
      "or_0 (leave_count r) \<le> or_0 (leave_count r1)"
      "or_0 (reenter_count r) \<le> or_0 (reenter_count r1)"
      by blast
    from Cons.IH [of lg1 r1] rest r1(1) obtain r' where r': "map_of (devices lg') k = Some r'"
      "or_0 (seen_count r') = or_0 (seen_count r1) + int (length (filter (upsert_of h k) ops))"
      "or_0 (enter_count r1) \<le> or_0 (enter_count r')"
      "or_0 (leave_count r1) \<le> or_0 (leave_count r')"
      "or_0 (reenter_count r1) \<le> or_0 (reenter_count r')"
      by blast
    from r1 r' show ?case by auto
  qed
  then show "\<exists>r'. map_of (devices lg') k = Some r' \<and>
         or_0 (seen_count r') = or_0 (seen_count r) + int (length (filter (upsert_of h k) ops)) \<and>
         or_0 (seen_count r) \<le> or_0 (seen_count r') \<and>
         or_0 (enter_count r) \<le> or_0 (enter_count r') \<and>
         or_0 (leave_count r) \<le> or_0 (leave_count r') \<and>
         or_0 (reenter_count r) \<le> or_0 (reenter_count r')"
    by auto
next
  assume a: "map_of (devices lg) (sighting_fp h sg) = None"
  from upsert_rec_fresh [OF a, of now_iso now_ts] obtain k mat tgs primary where
    "upsert_rec h now_iso now_ts sg lg =
       enter now_iso now_ts (observe now_iso now_ts sg (new_record k mat tgs primary now_iso))"
    by blast
  then show "\<exists>r'. map_of (devices (upsert h now_iso now_ts sg lg)) (sighting_fp h sg) = Some r' \<and>
           seen_count r' = Some 1"
    by (simp add: upsert_lookup or_0_def)
qed

text \<open>
  In \<open>busy_ops\<close> the Apple device is upserted twice, another device once, and one sweep
  runs: the \<open>seen_count\<close> of the Apple device goes from 1 to 3.
\<close>

theorem counters_monotone_witness:
  "run_ops plain_digest utc_date_iso seen_logger busy_ops = Inr busy_logger
   \<and> map_of (devices seen_logger) apple_fp = Some seen_rec
   \<and> seen_count seen_rec = Some 1
   \<and> length (filter (upsert_of plain_digest apple_fp) busy_ops) = 2
   \<and> (\<exists>r'. map_of (devices busy_logger) apple_fp = Some r' \<and>
         or_0 (seen_count r') = 3 \<and>
         or_0 (enter_count seen_rec) \<le> or_0 (enter_count r') \<and>
         or_0 (leave_count seen_rec) \<le> or_0 (leave_count r') \<and>
         or_0 (reenter_count seen_rec) \<le> or_0 (reenter_count r'))
   \<and> map_of (devices empty_logger) (sighting_fp plain_digest apple_sighting) = None
   \<and> (\<exists>r'. map_of (devices (upsert plain_digest ''2023-11-14T22:13:20Z'' 1700000000
                  apple_sighting empty_logger)) (sighting_fp plain_digest apple_sighting)
               = Some r' \<and> seen_count r' = Some 1)"
proof -
  note a = busy_logger_run and c = seen_rec_fields(4)
  have n: "length (filter (upsert_of plain_digest apple_fp) busy_ops) = 2"
    by code_simp
  have e: "map_of (devices empty_logger) (sighting_fp plain_digest apple_sighting) = None"
    by (simp add: empty_logger_def)
  from counters_monotone
    [of plain_digest utc_date_iso seen_logger busy_ops busy_logger apple_fp seen_rec]
    a seen_logger_lookup
  obtain r' where r: "map_of (devices busy_logger) apple_fp = Some r'"
    "or_0 (seen_count r') = or_0 (seen_count seen_rec)
       + int (length (filter (upsert_of plain_digest apple_fp) busy_ops))"
    "or_0 (enter_count seen_rec) \<le> or_0 (enter_count r')"
    "or_0 (leave_count seen_rec) \<le> or_0 (leave_count r')"
    "or_0 (reenter_count seen_rec) \<le> or_0 (reenter_count r')"
    by blast
  from r(2) c n have "or_0 (seen_count r') = 3"
    by (simp add: or_0_def)
  moreover from counters_monotone
    [of plain_digest utc_date_iso empty_logger "[]" empty_logger apple_fp seen_rec
        apple_sighting "''2023-11-14T22:13:20Z''" 1700000000] e
  have "\<exists>r'. map_of (devices (upsert plain_digest ''2023-11-14T22:13:20Z'' 1700000000
                  apple_sighting empty_logger)) (sighting_fp plain_digest apple_sighting)
               = Some r' \<and> seen_count r' = Some 1"
    by blast
  ultimately show ?thesis
    using a seen_logger_lookup c n e r by blast
qed

section \<open>The signal strength\<close>

text \<open>
  Claim C9.  After an upsert the record of the sighting holds the signal strength of the
  sighting in \<open>last_rssi\<close>, also when that is \<open>None\<close> and a number was recorded before.
  When the signal strength is \<open>None\<close>, \<open>best_rssi\<close> is what it was (\<open>None\<close> for a record the
  upsert creates); when it is a number, \<open>best_rssi\<close> is the larger of that number and the
  previous best, or that number if there was no previous best.
\<close>

theorem upsert_rssi:
  "\<exists>r'. map_of (devices (upsert h now_iso now_ts sg lg)) (sighting_fp h sg) = Some r' \<and>
      last_rssi r' = adv_rssi sg \<and>
      best_rssi r' =
        (case adv_rssi sg of
           None \<Rightarrow>
             (case map_of (devices lg) (sighting_fp h sg) of None \<Rightarrow> None | Some r \<Rightarrow> best_rssi r)
         | Some v \<Rightarrow>
             (case (case map_of (devices lg) (sighting_fp h sg) of
                      None \<Rightarrow> None | Some r \<Rightarrow> best_rssi r) of
                None \<Rightarrow> Some v
              | Some b \<Rightarrow> Some (max b v)))"
proof (cases "map_of (devices lg) (sighting_fp h sg)")
  case None
  from upsert_rec_fresh [OF None, of now_iso now_ts] obtain k mat tgs primary where
    "upsert_rec h now_iso now_ts sg lg =
       enter now_iso now_ts (observe now_iso now_ts sg (new_record k mat tgs primary now_iso))"
    by blast
  with None show ?thesis
    by (simp add: upsert_lookup observe_best_rssi split: option.splits)
next
  case (Some r)
  then show ?thesis
    by (simp add: upsert_lookup upsert_rec_found observe_best_rssi split: option.splits)
qed

text \<open>
  The Apple device was seen at -60 dBm.  Seen again without a signal strength, its
  \<open>last_rssi\<close> is \<open>None\<close> and its \<open>best_rssi\<close> is still -60; seen again at -55 dBm, both are
  -55.
\<close>

theorem upsert_rssi_witness:
  "map_of (devices seen_logger) (sighting_fp plain_digest apple_sighting) = Some seen_rec
   \<and> last_rssi seen_rec = Some (- 60) \<and> best_rssi seen_rec = Some (- 60)
   \<and> (\<exists>r'. map_of (devices (upsert plain_digest ''2023-11-14T22:13:21Z'' 1700000001
                  (apple_sighting\<lparr>adv_rssi := None\<rparr>) seen_logger))
               (sighting_fp plain_digest apple_sighting) = Some r' \<and>
         last_rssi r' = None \<and> best_rssi r' = Some (- 60))
   \<and> (\<exists>r'. map_of (devices (upsert plain_digest ''2023-11-14T22:13:21Z'' 1700000001
                  (apple_sighting\<lparr>adv_rssi := Some (- 55)\<rparr>) seen_logger))
               (sighting_fp plain_digest apple_sighting) = Some r' \<and>
         last_rssi r' = Some (- 55) \<and> best_rssi r' = Some (- 55))"
proof -
  have a: "map_of (devices seen_logger) (sighting_fp plain_digest apple_sighting) = Some seen_rec"
    by (simp add: apple_sighting_fp seen_logger_lookup)
  note b = seen_rec_fields(8) seen_rec_fields(9)
  have k: "sighting_fp plain_digest (apple_sighting\<lparr>adv_rssi := None\<rparr>)
             = sighting_fp plain_digest apple_sighting"
    "sighting_fp plain_digest (apple_sighting\<lparr>adv_rssi := Some (- 55)\<rparr>)
             = sighting_fp plain_digest apple_sighting"
    by (simp_all add: sighting_fp_def)
  from upsert_rssi [of plain_digest "''2023-11-14T22:13:21Z''" 1700000001
      "apple_sighting\<lparr>adv_rssi := None\<rparr>" seen_logger] a b k
  have c: "\<exists>r'. map_of (devices (upsert plain_digest ''2023-11-14T22:13:21Z'' 1700000001
                  (apple_sighting\<lparr>adv_rssi := None\<rparr>) seen_logger))
               (sighting_fp plain_digest apple_sighting) = Some r' \<and>
         last_rssi r' = None \<and> best_rssi r' = Some (- 60)"
    by simp
  from upsert_rssi [of plain_digest "''2023-11-14T22:13:21Z''" 1700000001
      "apple_sighting\<lparr>adv_rssi := Some (- 55)\<rparr>" seen_logger] a b k
  have d: "\<exists>r'. map_of (devices (upsert plain_digest ''2023-11-14T22:13:21Z'' 1700000001
                  (apple_sighting\<lparr>adv_rssi := Some (- 55)\<rparr>) seen_logger))
               (sighting_fp plain_digest apple_sighting) = Some r' \<and>
         last_rssi r' = Some (- 55) \<and> best_rssi r' = Some (- 55)"
    by simp
  from a b c d show ?thesis by blast
qed

section \<open>Records without a last-seen epoch\<close>

text \<open>
  Claim C10.  A Present record whose last-seen epoch is missing, zero or negative is left
  exactly as it is by every sweep, whatever the clock reads: through any number of sweeps
  that complete it stays Present, and its \<open>leave_count\<close> and dwell aggregation with it.
\<close>

theorem sweep_keeps_unseen_record:
  assumes "run_ops h dk lg (sweeps_at ticks) = Inr lg'"
    and "map_of (devices lg) k = Some r"
    and "present r"
    and "last_seen_ts r = None \<or> (\<exists>t. last_seen_ts r = Some t \<and> t \<le> 0)"
  shows "map_of (devices lg') k = Some r"
  using assms(1,2)
proof (induction ticks arbitrary: lg)
  case Nil
  then show ?case by (simp add: sweeps_at_def)
next
  case (Cons tick ticks)
  obtain now_iso now_ts where tick: "tick = (now_iso, now_ts)" by (cases tick)
  from Cons.prems(1) tick obtain lg1 where
    s: "mark_left_if_stale dk now_iso now_ts lg = Inr lg1"
    and rest: "run_ops h dk lg1 (sweeps_at ticks) = Inr lg'"
    by (auto simp: sweeps_at_def split: sum.splits)
  from mark_left_if_stale_lookup [OF s Cons.prems(2)] obtain r' c where
    m: "mark_left_rec dk now_iso now_ts r = Inr (r', c)" and l: "map_of (devices lg1) k = Some r'"
    by blast
  from assms(4) have "or_0r (last_seen_ts r) \<le> 0"
    by (auto simp: or_0r_def)
  with mark_left_rec_cases [OF m] have "r' = r" by auto
  with l have "map_of (devices lg1) k = Some r" by simp
  from Cons.IH [OF rest this] show ?case .
qed

text \<open>
  The record \<open>unseen_rec\<close> is the same after the sweeps at epochs 1700000500 and
  2000000000, the second more than nine years after the first.
\<close>

theorem sweep_keeps_unseen_record_witness:
  "run_ops plain_digest utc_date_iso loaded_logger
       (sweeps_at [(''2023-11-14T22:21:40Z'', 1700000500), (''2033-05-18T03:33:20Z'', 2000000000)])
     = Inr twice_swept_logger
   \<and> map_of (devices loaded_logger) ''aaaaaaaaaaaa'' = Some unseen_rec
   \<and> present unseen_rec \<and> last_seen_ts unseen_rec = Some 0
   \<and> map_of (devices twice_swept_logger) ''aaaaaaaaaaaa'' = Some unseen_rec"
proof -
  note a = twice_swept_logger_run and b = loaded_logger_lookup(1)
  have c: "present unseen_rec" "last_seen_ts unseen_rec = Some 0"
    by (simp_all add: unseen_rec_def new_record_def)
  from c(2) have d: "last_seen_ts unseen_rec = None \<or>
      (\<exists>t. last_seen_ts unseen_rec = Some t \<and> t \<le> 0)"
    by simp
  from sweep_keeps_unseen_record [OF a b c(1) d] a b c show ?thesis
    by simp
qed

end
